theory Spec2Isabelle
  imports Complex_Main "HOL-Library.Log_Nat"
begin

section \<open>Python values used by the HLS stream output\<close>

text \<open>
  The module \<^verbatim>\<open>homeassistant/components/stream/hls.py\<close> keeps the last
  \<^verbatim>\<open>MAX_SEGMENTS\<close> media segments in a \<^verbatim>\<open>collections.deque\<close>, lets consumers wait
  for the next one on an \<^verbatim>\<open>asyncio.Event\<close>, and renders two M3U8 playlists from
  the retained segments.

  Python integers are \<^typ>\<open>int\<close>. A Python \<^verbatim>\<open>float\<close> is a binary64 number, hence a
  rational; durations are carried as \<^typ>\<open>rat\<close> (the values NaN and infinity are not
  durations and are left out; an infinity that arithmetic produces is modelled). \<^verbatim>\<open>max\<close>, \<^verbatim>\<open>round\<close> and the \<^verbatim>\<open>.04f\<close>
  format are exact functions of the value of a float, so they are modelled on the
  rational itself; division and multiplication of floats round their exact result to
  binary64, which is written out below.
\<close>

text \<open>
  The exceptions the rendering code can raise; \<open>CodecError\<close> stands for a failure of
  the codec helper on malformed container metadata.
\<close>

datatype error =
  IndexError | AttributeError | ZeroDivisionError | OverflowError | CodecError

subsection \<open>\<^verbatim>\<open>round(x)\<close>: nearest integer, ties to the even one\<close>

definition py_round :: "rat \<Rightarrow> int" where
  "py_round x =
     (let f = \<lfloor>x\<rfloor>; r = x - of_int f
      in if r < 1 / 2 then f
         else if 1 / 2 < r then f + 1
         else if even f then f else f + 1)"

subsection \<open>\<^verbatim>\<open>max(xs)\<close> and \<^verbatim>\<open>max(xs, default=d)\<close>\<close>

text \<open>The built-in walks the list once, keeping the largest value seen so far.\<close>

definition py_max :: "'a::linorder list \<Rightarrow> 'a option" where
  "py_max xs = (case xs of [] \<Rightarrow> None | x # rest \<Rightarrow> Some (foldl max x rest))"

definition py_max_default :: "'a::linorder list \<Rightarrow> 'a \<Rightarrow> 'a" where
  "py_max_default xs d = (case py_max xs of None \<Rightarrow> d | Some m \<Rightarrow> m)"

subsection \<open>Binary64 arithmetic\<close>

definition pow2 :: "int \<Rightarrow> rat" where
  "pow2 k = (if 0 \<le> k then 2 ^ nat k else 1 / 2 ^ nat (- k))"

text \<open>
  \<open>ilog2 x\<close> is the integer \<open>k\<close> with \<open>2 ^ k \<le> x < 2 ^ (k + 1)\<close>, for positive \<open>x\<close>:
  one less than the bit length of \<open>\<lfloor>x\<rfloor>\<close> from 1 on, and minus the bit length of
  \<open>\<lceil>1 / x\<rceil> - 1\<close> below 1.
\<close>

definition ilog2 :: "rat \<Rightarrow> int" where
  "ilog2 x =
     (if 1 \<le> x then int (floorlog 2 (nat \<lfloor>x\<rfloor>)) - 1
      else - int (floorlog 2 (nat (\<lceil>1 / x\<rceil> - 1))))"

text \<open>
  \<open>fl x\<close> is \<open>x\<close> rounded to the nearest number with a significand of 53 bits, ties
  to the even significand; below the smallest normal number \<open>2 ^ - 1022\<close> the
  numbers are the multiples of \<open>2 ^ - 1074\<close>, as the subnormal numbers of binary64
  are. The magnitude is not bounded here: \<open>to_float\<close> below adds the overflow.
\<close>

definition fl :: "rat \<Rightarrow> rat" where
  "fl x =
     (if x = 0 then 0
      else let e = max (ilog2 \<bar>x\<bar> - 52) (- 1074)
           in of_int (py_round (x / pow2 e)) * pow2 e)"

text \<open>
  A float that arithmetic produces is a finite number or an infinity. A result rounds
  to an infinity when its rounded magnitude reaches \<open>2 ^ 1024\<close>. The sign of the
  infinity is dropped: the only operations applied to it here are a multiplication by
  a positive constant, which keeps it infinite, and \<^verbatim>\<open>round\<close>, which raises
  OverflowError for either sign.
\<close>

datatype pyfloat = Finite rat | Infinity

definition to_float :: "rat \<Rightarrow> pyfloat" where
  "to_float x = (if 2 ^ 1024 \<le> \<bar>fl x\<bar> then Infinity else Finite (fl x))"

text \<open>
  The conversion of an integer to a float, as the division of an integer by a float
  performs it first: it raises OverflowError for an integer too large for a float.
\<close>

definition float_of_int :: "int \<Rightarrow> error + rat" where
  "float_of_int n =
     (case to_float (of_int n) of Infinity \<Rightarrow> Inl OverflowError | Finite x \<Rightarrow> Inr x)"

text \<open>\<^verbatim>\<open>a / b\<close> on floats raises for a zero divisor and overflows to an infinity.\<close>

definition float_truediv :: "rat \<Rightarrow> rat \<Rightarrow> error + pyfloat" where
  "float_truediv a b = (if b = 0 then Inl ZeroDivisionError else Inr (to_float (a / b)))"

text \<open>\<^verbatim>\<open>a * b\<close> for a finite, non-zero float \<open>b\<close>.\<close>

definition float_mul :: "pyfloat \<Rightarrow> rat \<Rightarrow> pyfloat" where
  "float_mul a b = (case a of Infinity \<Rightarrow> Infinity | Finite x \<Rightarrow> to_float (x * b))"

text \<open>\<^verbatim>\<open>round(a)\<close> of a float: OverflowError for an infinity.\<close>

definition float_round :: "pyfloat \<Rightarrow> error + int" where
  "float_round a = (case a of Infinity \<Rightarrow> Inl OverflowError | Finite x \<Rightarrow> Inr (py_round x))"

subsection \<open>\<^verbatim>\<open>str(n)\<close> and \<^verbatim>\<open>"{:.04f}".format(x)\<close>\<close>

fun show_nat :: "nat \<Rightarrow> string" where
  "show_nat n =
     (if n < 10 then [''0123456789'' ! n]
      else show_nat (n div 10) @ [''0123456789'' ! (n mod 10)])"

declare show_nat.simps [simp del]

definition show_int :: "int \<Rightarrow> string" where
  "show_int i = (if i < 0 then ''-'' @ show_nat (nat (- i)) else show_nat (nat i))"

text \<open>
  Fixed-point format with four decimals: the value is rounded to the nearest
  multiple of \<open>1 / 10000\<close> (ties to even, on the exact value of the float), the
  fraction is padded with zeros to four digits.
\<close>

definition format_04f :: "rat \<Rightarrow> string" where
  "format_04f x =
     (let n = nat (py_round (\<bar>x\<bar> * 10000));
          frac = show_nat (n mod 10000)
      in (if x < 0 then ''-'' else '''') @ show_nat (n div 10000) @ ''.''
           @ replicate (4 - length frac) (CHR ''0'') @ frac)"

text \<open>\<^verbatim>\<open>"\n".join(lines)\<close>\<close>

fun join_lines :: "string list \<Rightarrow> string" where
  "join_lines [] = []"
| "join_lines [l] = l"
| "join_lines (l # ls) = l @ [CHR 0x0A] @ join_lines ls"

section \<open>Data model\<close>

subsection \<open>\<^verbatim>\<open>io.BytesIO\<close>\<close>

record bytesio =
  data :: "nat list"
  pos :: nat

text \<open>\<^verbatim>\<open>stream.seek(0, io.SEEK_END)\<close> moves the position to the end and returns it.\<close>

definition seek_end :: "bytesio \<Rightarrow> nat \<times> bytesio" where
  "seek_end b = (length (data b), b\<lparr>pos := length (data b)\<rparr>)"

subsection \<open>\<^verbatim>\<open>Segment\<close>\<close>

text \<open>
  Modelled from the spec: the class \<^verbatim>\<open>Segment\<close> of \<^verbatim>\<open>stream/core.py\<close> is not
  part of the sources at hand. Its three attributes are the ones \<^verbatim>\<open>hls.py\<close> reads:
  the sequence number, the payload stream and the duration in seconds.
\<close>

record Segment =
  sequence :: int
  segment :: bytesio
  duration :: rat

subsection \<open>\<^verbatim>\<open>collections.deque(maxlen=n)\<close>\<close>

record 'a deque =
  maxlen :: nat
  items :: "'a list"

definition deque_new :: "nat \<Rightarrow> 'a deque" where
  "deque_new n = \<lparr>maxlen = n, items = []\<rparr>"

text \<open>\<^verbatim>\<open>append\<close> adds on the right and, when the bound is exceeded, drops the leftmost item.\<close>

definition deque_append :: "'a deque \<Rightarrow> 'a \<Rightarrow> 'a deque" where
  "deque_append d x =
     (let xs = items d @ [x]
      in if maxlen d < length xs then d\<lparr>items := tl xs\<rparr> else d\<lparr>items := xs\<rparr>)"

subsection \<open>\<^verbatim>\<open>HlsStreamOutput\<close>\<close>

text \<open>
  The three attributes set by \<^verbatim>\<open>__init__\<close>: \<^verbatim>\<open>_cursor\<close>, the flag of the
  \<^verbatim>\<open>asyncio.Event\<close> held in \<^verbatim>\<open>_event\<close>, and the deque \<^verbatim>\<open>_segments\<close>. The constant
  \<^verbatim>\<open>MAX_SEGMENTS\<close> of \<^verbatim>\<open>stream/const.py\<close> is a parameter.
\<close>

record HlsStreamOutput =
  cursor :: "int option"
  event :: bool
  segments_deque :: "Segment deque"

definition init :: "nat \<Rightarrow> HlsStreamOutput" where
  "init MAX_SEGMENTS =
     \<lparr>cursor = None, event = False, segments_deque = deque_new MAX_SEGMENTS\<rparr>"

definition segments :: "HlsStreamOutput \<Rightarrow> int list" where
  "segments self = map sequence (items (segments_deque self))"

definition target_duration :: "HlsStreamOutput \<Rightarrow> int" where
  "target_duration self =
     (let segment_length = length (items (segments_deque self))
      in if segment_length = 0 then 1
         else case py_max (map duration (items (segments_deque self))) of
                None \<Rightarrow> 1
              | Some m \<Rightarrow> (if py_round m = 0 then 1 else py_round m))"

text \<open>
  \<^verbatim>\<open>get_segment(sequence=None)\<close> returns the deque itself when \<^verbatim>\<open>not sequence\<close>
  holds, which is the case for \<^verbatim>\<open>None\<close> and for the integer 0; otherwise the first
  retained segment with that sequence number, or \<^verbatim>\<open>None\<close>.
\<close>

datatype get_result = Whole "Segment deque" | Found Segment | NotFound

fun scan :: "Segment list \<Rightarrow> int \<Rightarrow> get_result" where
  "scan [] s = NotFound"
| "scan (x # xs) s = (if sequence x = s then Found x else scan xs s)"

definition get_segment :: "HlsStreamOutput \<Rightarrow> int option \<Rightarrow> get_result" where
  "get_segment self arg =
     (case arg of
        None \<Rightarrow> Whole (segments_deque self)
      | Some s \<Rightarrow> if s = 0 then Whole (segments_deque self)
                  else scan (items (segments_deque self)) s)"

subsection \<open>\<^verbatim>\<open>recv\<close>, \<^verbatim>\<open>_async_put\<close> and \<^verbatim>\<open>cleanup\<close> on the event loop\<close>

text \<open>
  \<^verbatim>\<open>recv\<close> is a coroutine with one suspension point, \<^verbatim>\<open>await self._event.wait()\<close>.
  The part before it decides whether to wait; the part after it reads the deque and
  moves the cursor. \<^verbatim>\<open>get_segment()\<close> without argument is the deque, whose last item
  is taken.
\<close>

definition recv_must_wait :: "HlsStreamOutput \<Rightarrow> bool" where
  "recv_must_wait self =
     (let last_segment = py_max_default (segments self) 0
      in case cursor self of None \<Rightarrow> True | Some c \<Rightarrow> c \<le> last_segment)"

definition recv_after_wait :: "HlsStreamOutput \<Rightarrow> Segment option \<times> HlsStreamOutput" where
  "recv_after_wait self =
     (if items (segments_deque self) = [] then (None, self)
      else let seg = last (items (segments_deque self))
           in (Some seg, self\<lparr>cursor := Some (sequence seg)\<rparr>))"

text \<open>
  The event loop runs one callback at a time. A call of \<^verbatim>\<open>recv\<close> is suspended in
  \<^verbatim>\<open>Event.wait\<close> (\<open>Waiting\<close>: its future is in the waiter list of the event and not
  done), has had its future resolved by \<^verbatim>\<open>Event.set\<close> and is scheduled to go on
  (\<open>Woken\<close>), or has returned.
\<close>

datatype call = Waiting | Woken | Returned "Segment option"

record system =
  hls_output :: HlsStreamOutput
  calls :: "call list"

definition start :: "nat \<Rightarrow> system" where
  "start MAX_SEGMENTS = \<lparr>hls_output = init MAX_SEGMENTS, calls = []\<rparr>"

text \<open>
  \<^verbatim>\<open>Event.set\<close> does nothing when the flag is set already; otherwise it sets the
  flag and resolves the future of every waiter. \<^verbatim>\<open>Event.wait\<close> returns at once when
  the flag is set and suspends the caller otherwise.
\<close>

definition event_set :: "system \<Rightarrow> system" where
  "event_set s =
     (if event (hls_output s) then s
      else s\<lparr>hls_output := (hls_output s)\<lparr>event := True\<rparr>,
             calls := map (\<lambda>c. if c = Waiting then Woken else c) (calls s)\<rparr>)"

definition event_clear :: "system \<Rightarrow> system" where
  "event_clear s = s\<lparr>hls_output := (hls_output s)\<lparr>event := False\<rparr>\<rparr>"

definition async_put :: "system \<Rightarrow> Segment \<Rightarrow> system" where
  "async_put s seg =
     event_clear (event_set
       (s\<lparr>hls_output := (hls_output s)\<lparr>segments_deque := deque_append (segments_deque (hls_output s)) seg\<rparr>\<rparr>))"

definition cleanup :: "nat \<Rightarrow> system \<Rightarrow> system" where
  "cleanup MAX_SEGMENTS s =
     (let s1 = event_set s
      in s1\<lparr>hls_output := (hls_output s1)\<lparr>segments_deque := deque_new MAX_SEGMENTS\<rparr>\<rparr>)"

text \<open>A new call of \<^verbatim>\<open>recv\<close> runs until it suspends or returns.\<close>

definition recv_call :: "system \<Rightarrow> system" where
  "recv_call s =
     (if recv_must_wait (hls_output s) \<and> \<not> event (hls_output s)
      then s\<lparr>calls := calls s @ [Waiting]\<rparr>
      else let (r, out) = recv_after_wait (hls_output s)
           in s\<lparr>hls_output := out, calls := calls s @ [Returned r]\<rparr>)"

text \<open>The loop resumes a call whose future is resolved; it runs to its return.\<close>

definition recv_resume :: "nat \<Rightarrow> system \<Rightarrow> system" where
  "recv_resume i s =
     (if i < length (calls s) \<and> calls s ! i = Woken
      then let (r, out) = recv_after_wait (hls_output s)
           in s\<lparr>hls_output := out, calls := (calls s)[i := Returned r]\<rparr>
      else s)"

datatype action = Recv | Resume nat | Put Segment | Cleanup

fun exec :: "nat \<Rightarrow> system \<Rightarrow> action \<Rightarrow> system" where
  "exec n s Recv = recv_call s"
| "exec n s (Resume i) = recv_resume i s"
| "exec n s (Put seg) = async_put s seg"
| "exec n s Cleanup = cleanup n s"

definition run :: "nat \<Rightarrow> system \<Rightarrow> action list \<Rightarrow> system" where
  "run n s acts = foldl (exec n) s acts"

fun is_put :: "action \<Rightarrow> bool" where
  "is_put (Put seg) = True"
| "is_put a = False"

fun is_signal :: "action \<Rightarrow> bool" where
  "is_signal (Put seg) = True"
| "is_signal Cleanup = True"
| "is_signal a = False"

section \<open>Playlists\<close>

text \<open>\<^verbatim>\<open>xs[start:]\<close>: a negative start counts from the end, and the bounds are clamped.\<close>

definition slice_from :: "'a list \<Rightarrow> int \<Rightarrow> 'a list" where
  "slice_from xs i =
     (let n = int (length xs);
          j = (if i < 0 then max 0 (i + n) else min i n)
      in drop (nat j) xs)"

subsection \<open>\<^verbatim>\<open>HlsPlaylistView\<close>\<close>

definition render_preamble :: "HlsStreamOutput \<Rightarrow> string list" where
  "render_preamble track =
     [''#EXT-X-VERSION:7'',
      ''#EXT-X-TARGETDURATION:'' @ show_int (target_duration track),
      ''#EXT-X-MAP:URI='' @ [CHR 0x22] @ ''init.mp4'' @ [CHR 0x22]]"

text \<open>
  The loop of \<^verbatim>\<open>render_playlist\<close>. Reading \<^verbatim>\<open>.duration\<close> of what
  \<^verbatim>\<open>get_segment\<close> returned fails with AttributeError when that is the deque or
  \<^verbatim>\<open>None\<close>.
\<close>

fun playlist_entries :: "HlsStreamOutput \<Rightarrow> int list \<Rightarrow> error + string list" where
  "playlist_entries track [] = Inr []"
| "playlist_entries track (s # rest) =
     (case get_segment track (Some s) of
        Found seg \<Rightarrow>
          (case playlist_entries track rest of
             Inl e \<Rightarrow> Inl e
           | Inr ls \<Rightarrow>
               Inr ([''#EXTINF:'' @ format_04f (duration seg) @ '','',
                     ''./segment/'' @ show_int (sequence seg) @ ''.m4s''] @ ls))
      | Whole d \<Rightarrow> Inl AttributeError
      | NotFound \<Rightarrow> Inl AttributeError)"

text \<open>The constant \<^verbatim>\<open>NUM_PLAYLIST_SEGMENTS\<close> of \<^verbatim>\<open>stream/const.py\<close> is a parameter.\<close>

definition render_playlist :: "int \<Rightarrow> HlsStreamOutput \<Rightarrow> error + string list" where
  "render_playlist NUM_PLAYLIST_SEGMENTS track =
     (let segs = slice_from (segments track) (- NUM_PLAYLIST_SEGMENTS)
      in if segs = [] then Inr []
         else case playlist_entries track segs of
                Inl e \<Rightarrow> Inl e
              | Inr ls \<Rightarrow> Inr ([''#EXT-X-MEDIA-SEQUENCE:'' @ show_int (hd segs)] @ ls))"

text \<open>
  \<^verbatim>\<open>HlsPlaylistView.render\<close>. Neither it nor the functions it calls assign to an
  attribute of the track or call a method of a payload stream, so the track it returns
  is the one it received.
\<close>

definition HlsPlaylistView_render ::
  "int \<Rightarrow> HlsStreamOutput \<Rightarrow> (error + string) \<times> HlsStreamOutput" where
  "HlsPlaylistView_render NUM_PLAYLIST_SEGMENTS track =
     (case render_playlist NUM_PLAYLIST_SEGMENTS track of
        Inl e \<Rightarrow> (Inl e, track)
      | Inr ls \<Rightarrow>
          (Inr (join_lines ([''#EXTM3U''] @ render_preamble track @ ls) @ [CHR 0x0A]), track))"

subsection \<open>\<^verbatim>\<open>HlsMasterPlaylistView\<close>\<close>

text \<open>
  The segment that \<^verbatim>\<open>get_segment\<close> returns is an object held by the deque; a
  \<^verbatim>\<open>seek\<close> on its payload stream is seen through the deque. \<open>set_payload\<close> writes
  the stream back into the first retained segment with the sequence number, the one
  \<open>scan\<close> finds.
\<close>

fun set_payload :: "Segment list \<Rightarrow> int \<Rightarrow> bytesio \<Rightarrow> Segment list" where
  "set_payload [] s b = []"
| "set_payload (x # xs) s b =
     (if sequence x = s then x\<lparr>segment := b\<rparr> # xs else x # set_payload xs s b)"

definition store_payload :: "HlsStreamOutput \<Rightarrow> int \<Rightarrow> bytesio \<Rightarrow> HlsStreamOutput" where
  "store_payload track s b =
     track\<lparr>segments_deque :=
       (segments_deque track)\<lparr>items := set_payload (items (segments_deque track)) s b\<rparr>\<rparr>"

text \<open>
  \<^verbatim>\<open>round(size * 8 / duration * 1.2)\<close>: the integer \<^verbatim>\<open>size * 8\<close> is converted to a
  float, divided by the duration, multiplied by the float nearest to 1.2, and rounded.
\<close>

definition bandwidth_of :: "nat \<Rightarrow> rat \<Rightarrow> error + int" where
  "bandwidth_of nbytes d =
     (case float_of_int (int nbytes * 8) of
        Inl e \<Rightarrow> Inl e
      | Inr bits \<Rightarrow>
          (case float_truediv bits d of
             Inl e \<Rightarrow> Inl e
           | Inr q \<Rightarrow> float_round (float_mul q (fl (6 / 5)))))"

text \<open>
  \<^verbatim>\<open>HlsMasterPlaylistView.render\<close>. \<^verbatim>\<open>get_codec_string\<close> of
  \<^verbatim>\<open>stream/fmp4utils.py\<close> is a parameter: given the payload stream it yields the
  codec string or fails, and leaves the stream as it returns it.
\<close>

definition HlsMasterPlaylistView_render ::
  "(bytesio \<Rightarrow> (error + string) \<times> bytesio) \<Rightarrow> HlsStreamOutput
     \<Rightarrow> (error + string) \<times> HlsStreamOutput" where
  "HlsMasterPlaylistView_render get_codec_string track =
     (if segments track = [] then (Inl IndexError, track)
      else case get_segment track (Some (last (segments track))) of
        Found seg \<Rightarrow>
          (let (nbytes, stream1) = seek_end (segment seg);
               track1 = store_payload track (sequence seg) stream1
           in case bandwidth_of nbytes (duration seg) of
                Inl e \<Rightarrow> (Inl e, track1)
              | Inr bandwidth \<Rightarrow>
                  (let (c, stream2) = get_codec_string stream1;
                       track2 = store_payload track (sequence seg) stream2
                   in case c of
                        Inl e \<Rightarrow> (Inl e, track2)
                      | Inr codecs \<Rightarrow>
                          (Inr (join_lines
                                  [''#EXTM3U'',
                                   ''#EXT-X-STREAM-INF:BANDWIDTH='' @ show_int bandwidth
                                     @ '',CODECS='' @ [CHR 0x22] @ codecs @ [CHR 0x22],
                                   ''playlist.m3u8''] @ [CHR 0x0A]),
                           track2)))
      | Whole d \<Rightarrow> (Inl AttributeError, track)
      | NotFound \<Rightarrow> (Inl AttributeError, track))"

section \<open>Example values\<close>

definition payload :: "nat list \<Rightarrow> bytesio" where
  "payload bs = \<lparr>data = bs, pos = 0\<rparr>"

definition track_of :: "nat \<Rightarrow> Segment list \<Rightarrow> HlsStreamOutput" where
  "track_of n xs =
     \<lparr>cursor = None, event = False, segments_deque = \<lparr>maxlen = n, items = xs\<rparr>\<rparr>"

definition example_segment :: "int \<Rightarrow> Segment" where
  "example_segment n = \<lparr>sequence = n, segment = payload [], duration = 6\<rparr>"

text \<open>A codec helper that reads nothing: it leaves the stream as it finds it.\<close>

definition codec_stub :: "bytesio \<Rightarrow> (error + string) \<times> bytesio" where
  "codec_stub b = (Inr ''avc1.640028'', b)"

section \<open>Verified properties\<close>

subsection \<open>Rounding and maximum\<close>

lemma foldl_max_Max: "foldl max x xs = Max (set (x # xs))"
  for x :: "'a::linorder"
proof -
  have "(\<lambda>a b. max b a) = (max :: 'a \<Rightarrow> 'a \<Rightarrow> 'a)"
    by (intro ext) (rule max.commute)
  then have "foldl max x xs = fold max xs x"
    by (simp add: foldl_conv_fold)
  then show ?thesis
    by (simp only: Max.set_eq_fold)
qed

lemma py_max_Max: "xs \<noteq> [] \<Longrightarrow> py_max xs = Some (Max (set xs))"
  by (cases xs) (simp_all add: py_max_def foldl_max_Max del: set_simps)

lemma py_round_near: "\<bar>of_int (py_round x) - x\<bar> \<le> 1 / 2"
  using of_int_floor_le [of x] floor_correct [of x]
  unfolding py_round_def Let_def
  by (auto simp: abs_le_iff)

lemma py_round_le_ceiling: "py_round x \<le> \<lceil>x\<rceil>"
proof -
  have "x = of_int \<lfloor>x\<rfloor> \<or> \<lceil>x\<rceil> = \<lfloor>x\<rfloor> + 1"
    by (metis ceiling_altdef)
  then show ?thesis
    unfolding py_round_def Let_def by auto
qed

lemma py_round_nonneg: "0 \<le> x \<Longrightarrow> 0 \<le> py_round x"
  unfolding py_round_def Let_def by auto

subsection \<open>Binary64 rounding\<close>

lemma pow2_pos: "0 < pow2 k"
  by (simp add: pow2_def)

lemma pow2_Suc: "pow2 (k + 1) = 2 * pow2 k"
proof (cases "0 \<le> k")
  case True
  then show ?thesis by (simp add: pow2_def nat_add_distrib)
next
  case False
  then have "nat (- k) = Suc (nat (- (k + 1)))" by simp
  with False show ?thesis by (simp add: pow2_def)
qed

lemma pow2_int: "pow2 (int j) = 2 ^ j"
  by (simp add: pow2_def)

lemma bitlen_bounds:
  assumes "0 < n"
  shows "(2::rat) ^ (floorlog 2 n - 1) \<le> of_nat n \<and> of_nat n + 1 \<le> (2::rat) ^ floorlog 2 n
     \<and> 0 < floorlog 2 n"
proof -
  from floorlog_bounds [of n 2] assms
  have a: "2 ^ (floorlog 2 n - 1) \<le> n" and b: "n < 2 ^ floorlog 2 n" by simp_all
  from a have "of_nat (2 ^ (floorlog 2 n - 1)) \<le> (of_nat n :: rat)"
    by (simp only: of_nat_le_iff)
  moreover from b have "Suc n \<le> 2 ^ floorlog 2 n" by simp
  then have "of_nat (Suc n) \<le> (of_nat (2 ^ floorlog 2 n) :: rat)"
    by (simp only: of_nat_le_iff)
  moreover have "0 < floorlog 2 n"
    using assms by (simp add: floorlog_def)
  ultimately show ?thesis by (simp add: add.commute)
qed

text \<open>\<open>ilog2\<close> is the binary exponent: \<open>2 ^ ilog2 x \<le> x < 2 ^ (ilog2 x + 1)\<close>.\<close>

lemma ilog2_bounds:
  assumes "0 < x"
  shows "pow2 (ilog2 x) \<le> x \<and> x < pow2 (ilog2 x + 1)"
proof (cases "1 \<le> x")
  case True
  define n where "n = nat \<lfloor>x\<rfloor>"
  from True have fl1: "1 \<le> \<lfloor>x\<rfloor>" by simp
  then have n: "0 < n" and nx: "of_nat n = (of_int \<lfloor>x\<rfloor> :: rat)"
    by (simp_all add: n_def)
  note b = bitlen_bounds [OF n]
  from b have k: "ilog2 x = int (floorlog 2 n - 1)"
    using True by (simp add: ilog2_def n_def [symmetric] of_nat_diff)
  have lo: "(2::rat) ^ (floorlog 2 n - 1) \<le> x"
    using b nx of_int_floor_le [of x] by linarith
  have hi: "x < (2::rat) ^ floorlog 2 n"
    using b nx floor_correct [of x] by linarith
  have pk: "pow2 (ilog2 x) = 2 ^ (floorlog 2 n - 1)"
    by (simp only: k pow2_int)
  from b have "Suc (floorlog 2 n - 1) = floorlog 2 n" by simp
  then have "(2::rat) * 2 ^ (floorlog 2 n - 1) = 2 ^ floorlog 2 n"
    by (metis power_Suc)
  then have "pow2 (ilog2 x + 1) = 2 ^ floorlog 2 n"
    by (simp only: pow2_Suc pk)
  with lo hi pk show ?thesis by simp
next
  case False
  define y where "y = 1 / x"
  from False assms have y: "1 < y" by (simp add: y_def)
  define m where "m = nat (\<lceil>y\<rceil> - 1)"
  from y have c2: "2 \<le> \<lceil>y\<rceil>" by (simp add: le_ceiling_iff)
  then have m: "0 < m" and my: "of_nat m = (of_int \<lceil>y\<rceil> - 1 :: rat)"
    by (simp_all add: m_def)
  note b = bitlen_bounds [OF m]
  define c where "c = floorlog 2 m"
  have k: "ilog2 x = - int c"
    using False by (simp add: ilog2_def y_def [symmetric] m_def [symmetric] c_def)
  have lo: "(2::rat) ^ (c - 1) < y"
    using b my ceiling_correct [of y] unfolding c_def by linarith
  have hi: "y \<le> (2::rat) ^ c"
    using b my le_of_int_ceiling [of y] unfolding c_def by linarith
  from b have c: "0 < c" by (simp add: c_def)
  have x: "x = 1 / y" using assms by (simp add: y_def)
  have p1: "pow2 (- int c) = 1 / 2 ^ c"
    using c by (simp add: pow2_def)
  have p2: "pow2 (- int c + 1) = 1 / 2 ^ (c - 1)"
  proof (cases "c = 1")
    case True
    then show ?thesis by (simp add: pow2_def)
  next
    case False
    with c have "nat (int c - 1) = c - 1" "\<not> 0 \<le> - int c + 1" by simp_all
    then show ?thesis by (simp add: pow2_def)
  qed
  have "1 / 2 ^ c \<le> 1 / y"
    using hi y by (simp add: frac_le)
  moreover have "1 / y < 1 / 2 ^ (c - 1)"
    using lo by (simp add: frac_less2)
  ultimately have "1 / 2 ^ c \<le> x" "x < 1 / 2 ^ (c - 1)"
    by (simp_all only: x [symmetric])
  moreover have "pow2 (ilog2 x) = 1 / 2 ^ c" "pow2 (ilog2 x + 1) = 1 / 2 ^ (c - 1)"
    by (simp_all only: k p1 p2)
  ultimately show ?thesis by simp
qed

text \<open>
  \<open>fl x\<close> is an integer multiple of the unit in the last place at the exponent of
  \<open>x\<close> and is within half that unit of \<open>x\<close>.
\<close>

lemma fl_nearest:
  assumes "x \<noteq> 0"
  shows "fl x = of_int (py_round (x / pow2 (max (ilog2 \<bar>x\<bar> - 52) (- 1074))))
                  * pow2 (max (ilog2 \<bar>x\<bar> - 52) (- 1074))
     \<and> \<bar>fl x - x\<bar> \<le> pow2 (max (ilog2 \<bar>x\<bar> - 52) (- 1074)) / 2"
proof -
  define p where "p = pow2 (max (ilog2 \<bar>x\<bar> - 52) (- 1074))"
  define r :: rat where "r = of_int (py_round (x / p))"
  have p: "0 < p" unfolding p_def by (rule pow2_pos)
  have e: "fl x = r * p"
    using assms by (simp add: fl_def Let_def p_def r_def)
  have "\<bar>r - x / p\<bar> \<le> 1 / 2"
    unfolding r_def by (rule py_round_near)
  then have "\<bar>r - x / p\<bar> * p \<le> 1 / 2 * p"
    using p by (intro mult_right_mono) simp_all
  moreover have "(r - x / p) * p = r * p - x"
    using p by (simp add: left_diff_distrib)
  moreover have "\<bar>r - x / p\<bar> * p = \<bar>(r - x / p) * p\<bar>"
    using p by (simp add: abs_mult)
  ultimately have "\<bar>r * p - x\<bar> \<le> p / 2" by simp
  with e show ?thesis
    unfolding r_def p_def by simp
qed

subsection \<open>Target duration\<close>

lemma target_duration_empty:
  "items (segments_deque self) = [] \<Longrightarrow> target_duration self = 1"
  by (simp add: target_duration_def)

lemma target_duration_nonempty:
  "items (segments_deque self) \<noteq> [] \<Longrightarrow>
   target_duration self =
     (let r = py_round (Max (duration ` set (items (segments_deque self))))
      in if r = 0 then 1 else r)"
  by (simp add: target_duration_def py_max_Max Let_def)

text \<open>
  C1, as amended. With positive durations, \<^verbatim>\<open>target_duration\<close> is at least 1; it is 1
  for an empty buffer; otherwise it is the largest retained duration rounded to the
  nearest integer (ties to the even one), or 1 when that is 0. The rounded value is
  within one half of the largest duration and never above its ceiling.
\<close>

theorem target_duration_nearest:
  assumes "\<forall>s \<in> set (items (segments_deque self)). 0 < duration s"
  shows "1 \<le> target_duration self
    \<and> (items (segments_deque self) = [] \<longrightarrow> target_duration self = 1)
    \<and> (items (segments_deque self) \<noteq> [] \<longrightarrow>
         (let m = Max (duration ` set (items (segments_deque self)))
          in target_duration self = max 1 (py_round m)
             \<and> \<bar>of_int (py_round m) - m\<bar> \<le> 1 / 2
             \<and> target_duration self \<le> max 1 \<lceil>m\<rceil>))"
proof (cases "items (segments_deque self) = []")
  case True
  then show ?thesis by (simp add: target_duration_empty)
next
  case False
  define m where "m = Max (duration ` set (items (segments_deque self)))"
  have "m \<in> duration ` set (items (segments_deque self))"
    unfolding m_def using False by (intro Max_in) simp_all
  with assms have "0 < m" by auto
  then have nonneg: "0 \<le> py_round m" by (simp add: py_round_nonneg)
  have td: "target_duration self = (if py_round m = 0 then 1 else py_round m)"
    using False by (simp add: target_duration_nonempty m_def Let_def)
  with nonneg have eq: "target_duration self = max 1 (py_round m)" by auto
  moreover have "max 1 (py_round m) \<le> max 1 \<lceil>m\<rceil>"
    using py_round_le_ceiling [of m] by auto
  ultimately show ?thesis
    using False py_round_near [of m] by (simp add: m_def [symmetric] Let_def)
qed

theorem target_duration_nearest_witness:
  "0 < duration \<lparr>sequence = 1, segment = payload [], duration = 6\<rparr>
   \<and> 0 < duration \<lparr>sequence = 2, segment = payload [], duration = 11 / 2\<rparr>
   \<and> target_duration (track_of 3
        [\<lparr>sequence = 1, segment = payload [], duration = 6\<rparr>,
         \<lparr>sequence = 2, segment = payload [], duration = 11 / 2\<rparr>]) = 6"
  using target_duration_nearest [of "track_of 3
        [\<lparr>sequence = 1, segment = payload [], duration = 6\<rparr>,
         \<lparr>sequence = 2, segment = payload [], duration = 11 / 2\<rparr>]"]
  by (simp add: track_of_def py_round_def Let_def)

text \<open>
  C1 as stated fails: one retained segment of 6.25 seconds gives the target duration
  6, while the ceiling of the largest duration is 7.
\<close>

theorem target_duration_ceiling_counterexample:
  "target_duration (track_of 3 [\<lparr>sequence = 1, segment = payload [], duration = 25 / 4\<rparr>]) = 6
   \<and> \<lceil>Max (duration ` set (items (segments_deque
        (track_of 3 [\<lparr>sequence = 1, segment = payload [], duration = 25 / 4\<rparr>]))))\<rceil> = 7
   \<and> target_duration (track_of 3 [\<lparr>sequence = 1, segment = payload [], duration = 25 / 4\<rparr>])
     \<noteq> \<lceil>Max (duration ` set (items (segments_deque
        (track_of 3 [\<lparr>sequence = 1, segment = payload [], duration = 25 / 4\<rparr>]))))\<rceil>"
  by code_simp

subsection \<open>Evaluation of numerals and strings\<close>

lemma floor_rat_numeral:
  "\<lfloor>numeral a / numeral b :: rat\<rfloor> = numeral a div numeral b"
  "\<lfloor>- (numeral a / numeral b) :: rat\<rfloor> = - numeral a div numeral b"
  "\<lceil>numeral a / numeral b :: rat\<rceil> = - (- numeral a div numeral b)"
  by (metis floor_divide_of_int_eq of_int_numeral,
      metis floor_divide_of_int_eq of_int_numeral of_int_minus minus_divide_left,
      metis ceiling_def floor_divide_of_int_eq of_int_numeral of_int_minus minus_divide_left)

lemma replicate_small:
  "replicate 1 c = [c]" "replicate 2 c = [c, c]" "replicate 3 c = [c, c, c]"
  by (simp_all add: eval_nat_numeral)

lemma format_04f_examples:
  "format_04f 6 = ''6.0000''" "format_04f (11 / 2) = ''5.5000''"
  by (simp_all add: format_04f_def py_round_def show_nat.simps replicate_small)

lemma show_int_examples:
  "show_int 6 = ''6''" "show_int 10 = ''10''" "show_int 11 = ''11''" "show_int 12 = ''12''"
  by (simp_all add: show_int_def show_nat.simps)

subsection \<open>The segment playlist\<close>

lemma render_playlist_three:
  "render_playlist 3
     \<lparr>cursor = c, event = e, segments_deque = \<lparr>maxlen = n, items =
        [\<lparr>sequence = 10, segment = p1, duration = 6\<rparr>,
         \<lparr>sequence = 11, segment = p2, duration = 6\<rparr>,
         \<lparr>sequence = 12, segment = p3, duration = 11 / 2\<rparr>]\<rparr>\<rparr>
   = Inr [''#EXT-X-MEDIA-SEQUENCE:10'',
          ''#EXTINF:6.0000,'', ''./segment/10.m4s'',
          ''#EXTINF:6.0000,'', ''./segment/11.m4s'',
          ''#EXTINF:5.5000,'', ''./segment/12.m4s'']"
  by (simp add: render_playlist_def segments_def slice_from_def get_segment_def
      format_04f_examples show_int_examples Let_def)

lemma target_duration_three:
  "target_duration
     \<lparr>cursor = c, event = e, segments_deque = \<lparr>maxlen = n, items =
        [\<lparr>sequence = 10, segment = p1, duration = 6\<rparr>,
         \<lparr>sequence = 11, segment = p2, duration = 6\<rparr>,
         \<lparr>sequence = 12, segment = p3, duration = 11 / 2\<rparr>]\<rparr>\<rparr> = 6"
  by (simp add: target_duration_def py_max_def py_round_def Let_def)

text \<open>
  C9. With the window size 3, the playlist of a buffer that holds the sequences 10, 11
  and 12 with the durations 6.0, 6.0 and 5.5 has the media-sequence line for 10 and
  then, segment by segment in ascending order, a duration line with four decimals and
  the reference \<^verbatim>\<open>./segment/<sequence>.m4s\<close>; the whole manifest is the header lines
  followed by these.
\<close>

theorem render_media_example:
  "render_playlist 3
     \<lparr>cursor = c, event = e, segments_deque = \<lparr>maxlen = n, items =
        [\<lparr>sequence = 10, segment = p1, duration = 6\<rparr>,
         \<lparr>sequence = 11, segment = p2, duration = 6\<rparr>,
         \<lparr>sequence = 12, segment = p3, duration = 11 / 2\<rparr>]\<rparr>\<rparr>
   = Inr [''#EXT-X-MEDIA-SEQUENCE:10'',
          ''#EXTINF:6.0000,'', ''./segment/10.m4s'',
          ''#EXTINF:6.0000,'', ''./segment/11.m4s'',
          ''#EXTINF:5.5000,'', ''./segment/12.m4s'']
   \<and> fst (HlsPlaylistView_render 3
     \<lparr>cursor = c, event = e, segments_deque = \<lparr>maxlen = n, items =
        [\<lparr>sequence = 10, segment = p1, duration = 6\<rparr>,
         \<lparr>sequence = 11, segment = p2, duration = 6\<rparr>,
         \<lparr>sequence = 12, segment = p3, duration = 11 / 2\<rparr>]\<rparr>\<rparr>)
   = Inr (join_lines
         [''#EXTM3U'',
          ''#EXT-X-VERSION:7'',
          ''#EXT-X-TARGETDURATION:6'',
          ''#EXT-X-MAP:URI='' @ [CHR 0x22] @ ''init.mp4'' @ [CHR 0x22],
          ''#EXT-X-MEDIA-SEQUENCE:10'',
          ''#EXTINF:6.0000,'', ''./segment/10.m4s'',
          ''#EXTINF:6.0000,'', ''./segment/11.m4s'',
          ''#EXTINF:5.5000,'', ''./segment/12.m4s''] @ [CHR 0x0A])"
  unfolding HlsPlaylistView_render_def render_preamble_def
    render_playlist_three target_duration_three show_int_examples
  by simp

subsection \<open>Appending to the bounded deque\<close>

lemma deque_append_maxlen: "maxlen (deque_append d x) = maxlen d"
  by (simp add: deque_append_def Let_def)

lemma deque_append_not_full:
  "length (items d) < maxlen d \<Longrightarrow> items (deque_append d x) = items d @ [x]"
  by (simp add: deque_append_def Let_def)

lemma deque_append_full:
  "length (items d) = maxlen d \<Longrightarrow> items (deque_append d x) = tl (items d @ [x])"
  by (simp add: deque_append_def Let_def)

lemma async_put_deque:
  "segments_deque (hls_output (async_put s x)) = deque_append (segments_deque (hls_output s)) x"
  by (simp add: async_put_def event_clear_def event_set_def)

lemma drop_snoc_step:
  "drop (Suc (length xs) - N) (xs @ [x]) =
     (if length xs < N then drop (length xs - N) xs @ [x]
      else tl (drop (length xs - N) xs @ [x]))"
proof (cases "length xs < N")
  case True
  then show ?thesis by simp
next
  case False
  show ?thesis
  proof (cases "N = 0")
    case True
    then show ?thesis by simp
  next
    case N: False
    with False have ne: "drop (length xs - N) xs \<noteq> []" by simp
    have "Suc (length xs) - N = Suc (length xs - N)" using False by simp
    then have "drop (Suc (length xs) - N) (xs @ [x]) = tl (drop (length xs - N) (xs @ [x]))"
      by (simp add: drop_Suc tl_drop del: drop_append)
    also have "\<dots> = tl (drop (length xs - N) xs @ [x])"
      using N False by simp
    finally show ?thesis using False by simp
  qed
qed

lemma puts_deque:
  "maxlen (segments_deque (hls_output (foldl async_put (start N) xs))) = N
   \<and> items (segments_deque (hls_output (foldl async_put (start N) xs))) = drop (length xs - N) xs"
proof (induction xs rule: rev_induct)
  case Nil
  show ?case by (simp add: start_def init_def deque_new_def)
next
  case (snoc x xs)
  let ?d = "segments_deque (hls_output (foldl async_put (start N) xs))"
  from snoc have m: "maxlen ?d = N" and i: "items ?d = drop (length xs - N) xs" by simp_all
  have "items (deque_append ?d x) = drop (Suc (length xs) - N) (xs @ [x])"
  proof (cases "length xs < N")
    case True
    then have "length (items ?d) < maxlen ?d" by (simp add: m i)
    then show ?thesis using True by (simp add: deque_append_not_full i)
  next
    case False
    then have "length (items ?d) = maxlen ?d" by (simp add: m i)
    then show ?thesis using False by (simp add: deque_append_full i drop_snoc_step del: drop_append)
  qed
  then show ?case
    by (simp add: async_put_deque deque_append_maxlen m)
qed


lemma sorted_wrt_hd_least:
  "sorted_wrt (<) ys \<Longrightarrow> \<forall>y \<in> set (tl ys). hd ys < y"
  for ys :: "int list"
  by (cases ys) auto

text \<open>
  C4. After any list \<open>xs\<close> of appends to a fresh buffer of capacity \<open>N\<close> the buffer
  holds the last \<open>min (length xs) N\<close> appended segments in the order of their
  insertion, so never more than \<open>N\<close>. An append to a full buffer drops the head and
  nothing else; an append to a buffer with room drops nothing. When the producer appends
  ascending sequence numbers, the retained list is ascending and its head has the lowest
  sequence number.
\<close>

theorem appends_bounded_fifo:
  "let s = foldl async_put (start N) xs; t = hls_output s
   in length (segments t) = min (length xs) N
    \<and> length (segments t) \<le> N
    \<and> items (segments_deque t) = drop (length xs - N) xs
    \<and> (0 < N \<and> N \<le> length xs \<longrightarrow>
         (\<forall>x. items (segments_deque (hls_output (async_put s x)))
                = tl (items (segments_deque t)) @ [x]))
    \<and> (length xs < N \<longrightarrow>
         (\<forall>x. items (segments_deque (hls_output (async_put s x)))
                = items (segments_deque t) @ [x]))
    \<and> (sorted_wrt (<) (map sequence xs) \<longrightarrow>
         sorted_wrt (<) (segments t) \<and> (\<forall>y \<in> set (tl (segments t)). hd (segments t) < y))"
proof -
  let ?s = "foldl async_put (start N) xs"
  let ?d = "segments_deque (hls_output ?s)"
  have m: "maxlen ?d = N" and i: "items ?d = drop (length xs - N) xs"
    using puts_deque [of N xs] by simp_all
  have len: "length (segments (hls_output ?s)) = min (length xs) N"
    by (simp add: segments_def i min_def)
  have full: "items (segments_deque (hls_output (async_put ?s x))) = tl (items ?d) @ [x]"
    if "0 < N" "N \<le> length xs" for x
  proof -
    from that have "length (items ?d) = maxlen ?d" and "items ?d \<noteq> []"
      by (simp_all add: m i)
    then show ?thesis by (simp add: async_put_deque deque_append_full)
  qed
  have room: "items (segments_deque (hls_output (async_put ?s x))) = items ?d @ [x]"
    if "length xs < N" for x
  proof -
    from that have "length (items ?d) < maxlen ?d" by (simp add: m i)
    then show ?thesis by (simp add: async_put_deque deque_append_not_full)
  qed
  have srt: "sorted_wrt (<) (segments (hls_output ?s))
      \<and> (\<forall>y \<in> set (tl (segments (hls_output ?s))). hd (segments (hls_output ?s)) < y)"
    if "sorted_wrt (<) (map sequence xs)"
  proof -
    have "segments (hls_output ?s) = drop (length xs - N) (map sequence xs)"
      by (simp add: segments_def i drop_map)
    with that have "sorted_wrt (<) (segments (hls_output ?s))"
      by (simp add: sorted_wrt_drop)
    then show ?thesis using sorted_wrt_hd_least by blast
  qed
  show ?thesis
    unfolding Let_def using len i full room srt by simp
qed

theorem appends_bounded_fifo_witness:
  "(0 < (2::nat) \<and> 2 \<le> length [example_segment 1, example_segment 2, example_segment 3])
   \<and> sorted_wrt (<) (map sequence [example_segment 1, example_segment 2, example_segment 3])
   \<and> segments (hls_output (foldl async_put (start 2)
        [example_segment 1, example_segment 2, example_segment 3])) = [2, 3]
   \<and> segments (hls_output (async_put (foldl async_put (start 2)
        [example_segment 1, example_segment 2, example_segment 3]) (example_segment 4))) = [3, 4]
   \<and> length [example_segment 1] < (2::nat)
   \<and> segments (hls_output (async_put (foldl async_put (start 2) [example_segment 1])
        (example_segment 2))) = [1, 2]"
  using appends_bounded_fifo [of 2 "[example_segment 1, example_segment 2, example_segment 3]"]
    appends_bounded_fifo [of 2 "[example_segment 1]"]
  by (simp add: Let_def segments_def example_segment_def)

subsection \<open>Lookup by sequence number\<close>

lemma scan_in:
  "s \<in> sequence ` set xs \<Longrightarrow> \<exists>x \<in> set xs. scan xs s = Found x \<and> sequence x = s"
  by (induction xs) auto

lemma scan_notin: "s \<notin> sequence ` set xs \<Longrightarrow> scan xs s = NotFound"
  by (induction xs) auto

text \<open>
  For a sequence number other than 0, \<^verbatim>\<open>get_segment\<close> returns a retained segment
  with that number when it is listed, and \<^verbatim>\<open>None\<close> when it is not.
\<close>

lemma get_segment_nonzero:
  assumes "s \<noteq> 0"
  shows "(s \<in> set (segments self) \<longrightarrow>
            (\<exists>x \<in> set (items (segments_deque self)).
               get_segment self (Some s) = Found x \<and> sequence x = s))
       \<and> (s \<notin> set (segments self) \<longrightarrow> get_segment self (Some s) = NotFound)"
  using assms scan_in [of s "items (segments_deque self)"]
    scan_notin [of s "items (segments_deque self)"]
  by (auto simp: get_segment_def segments_def)

text \<open>
  C2 at the sequence number 0: \<^verbatim>\<open>get_segment(0)\<close> takes the branch of the omitted
  argument and returns the whole deque, both when a segment with the sequence number 0
  is retained and when none is.
\<close>

theorem get_segment_zero_whole:
  "0 \<in> set (segments (track_of 3 [example_segment 0, example_segment 1]))
   \<and> get_segment (track_of 3 [example_segment 0, example_segment 1]) (Some 0)
     = Whole \<lparr>maxlen = 3, items = [example_segment 0, example_segment 1]\<rparr>
   \<and> 0 \<notin> set (segments (track_of 3 [example_segment 1]))
   \<and> get_segment (track_of 3 [example_segment 1]) (Some 0)
     = Whole \<lparr>maxlen = 3, items = [example_segment 1]\<rparr>"
  by (simp add: get_segment_def track_of_def segments_def example_segment_def)

subsection \<open>The two halves of \<^verbatim>\<open>recv\<close>\<close>

lemma recv_after_wait_empty:
  "items (segments_deque t) = [] \<Longrightarrow> recv_after_wait t = (None, t)"
  by (simp add: recv_after_wait_def)

lemma recv_after_wait_nonempty:
  "items (segments_deque t) \<noteq> [] \<Longrightarrow>
   recv_after_wait t =
     (Some (last (items (segments_deque t))),
      t\<lparr>cursor := Some (sequence (last (items (segments_deque t))))\<rparr>)"
  by (simp add: recv_after_wait_def Let_def)

lemma recv_after_wait_frame:
  "segments_deque (snd (recv_after_wait t)) = segments_deque t
   \<and> event (snd (recv_after_wait t)) = event t"
  by (simp add: recv_after_wait_def Let_def)

lemma recv_after_wait_cursor:
  "fst (recv_after_wait t) = Some seg \<Longrightarrow> cursor (snd (recv_after_wait t)) = Some (sequence seg)"
  by (auto simp: recv_after_wait_def Let_def split: if_splits)

lemma recv_call_frame:
  "segments_deque (hls_output (recv_call s)) = segments_deque (hls_output s)
   \<and> event (hls_output (recv_call s)) = event (hls_output s)
   \<and> length (calls (recv_call s)) = Suc (length (calls s))
   \<and> take (length (calls s)) (calls (recv_call s)) = calls s"
  using recv_after_wait_frame [of "hls_output s"]
  by (auto simp: recv_call_def split: prod.splits)

lemma recv_resume_frame:
  "segments_deque (hls_output (recv_resume i s)) = segments_deque (hls_output s)
   \<and> event (hls_output (recv_resume i s)) = event (hls_output s)
   \<and> length (calls (recv_resume i s)) = length (calls s)"
  using recv_after_wait_frame [of "hls_output s"]
  by (auto simp: recv_resume_def split: prod.splits)

text \<open>
  C5. A \<^verbatim>\<open>recv\<close> on a fresh buffer suspends; one append of \<open>x\<close> resolves its
  future; when it goes on it returns \<open>x\<close> and the cursor is the sequence number of
  \<open>x\<close>. The capacity \<^verbatim>\<open>MAX_SEGMENTS\<close> is positive.
\<close>

theorem recv_before_first_append:
  assumes "0 < N"
  shows "calls (run N (start N) [Recv]) = [Waiting]
    \<and> calls (run N (start N) [Recv, Put x]) = [Woken]
    \<and> calls (run N (start N) [Recv, Put x, Resume 0]) = [Returned (Some x)]
    \<and> cursor (hls_output (run N (start N) [Recv, Put x, Resume 0])) = Some (sequence x)"
  using assms
  by (simp add: run_def start_def init_def deque_new_def recv_call_def recv_must_wait_def
      async_put_def event_set_def event_clear_def deque_append_def recv_resume_def
      recv_after_wait_def Let_def)

theorem recv_before_first_append_witness:
  "0 < (3::nat)
   \<and> calls (run 3 (start 3) [Recv, Put (example_segment 1), Resume 0])
       = [Returned (Some (example_segment 1))]
   \<and> cursor (hls_output (run 3 (start 3) [Recv, Put (example_segment 1), Resume 0])) = Some 1"
  using recv_before_first_append [of 3 "example_segment 1"]
  by (simp add: example_segment_def)

text \<open>
  C10. The cursor is an attribute of the stream output, not of a call. When a call of
  \<^verbatim>\<open>recv\<close> returns a segment, at once or after a wait, the cursor of the output is
  the sequence number of that segment, and it is this value that the next call
  compares with the newest retained sequence number. No call of \<^verbatim>\<open>recv\<close> changes
  the deque, that is the segments, their order and the capacity.
\<close>

theorem recv_moves_shared_cursor:
  "(calls (recv_call s) ! length (calls s) = Returned (Some seg) \<longrightarrow>
      cursor (hls_output (recv_call s)) = Some (sequence seg)
      \<and> recv_must_wait (hls_output (recv_call s))
          = (sequence seg \<le> py_max_default (segments (hls_output (recv_call s))) 0))
   \<and> (i < length (calls s) \<and> calls s ! i = Woken
        \<and> calls (recv_resume i s) ! i = Returned (Some seg) \<longrightarrow>
      cursor (hls_output (recv_resume i s)) = Some (sequence seg)
      \<and> recv_must_wait (hls_output (recv_resume i s))
          = (sequence seg \<le> py_max_default (segments (hls_output (recv_resume i s))) 0))
   \<and> segments_deque (hls_output (recv_call s)) = segments_deque (hls_output s)
   \<and> segments_deque (hls_output (recv_resume i s)) = segments_deque (hls_output s)"
proof -
  have a: "cursor (hls_output (recv_call s)) = Some (sequence seg)"
    if "calls (recv_call s) ! length (calls s) = Returned (Some seg)"
    using that recv_after_wait_cursor [of "hls_output s" seg]
    by (auto simp: recv_call_def split: if_splits prod.splits)
  have b: "cursor (hls_output (recv_resume i s)) = Some (sequence seg)"
    if "i < length (calls s)" "calls s ! i = Woken"
      "calls (recv_resume i s) ! i = Returned (Some seg)"
    using that recv_after_wait_cursor [of "hls_output s" seg]
    by (auto simp: recv_resume_def split: if_splits prod.splits)
  have c: "recv_must_wait t = (n \<le> py_max_default (segments t) 0)" if "cursor t = Some n" for t n
    using that by (simp add: recv_must_wait_def)
  show ?thesis
    using a b c recv_call_frame [of s] recv_resume_frame [of i s] by blast
qed

theorem recv_moves_shared_cursor_witness:
  "calls (recv_call (run 3 (start 3)
       [Recv, Put (example_segment 5), Resume 0, Cleanup, Put (example_segment 1)]))
     ! length (calls (run 3 (start 3)
       [Recv, Put (example_segment 5), Resume 0, Cleanup, Put (example_segment 1)]))
     = Returned (Some (example_segment 1))
   \<and> cursor (hls_output (recv_call (run 3 (start 3)
       [Recv, Put (example_segment 5), Resume 0, Cleanup, Put (example_segment 1)]))) = Some 1
   \<and> (0 < length (calls (run 3 (start 3) [Recv, Put (example_segment 1)]))
      \<and> calls (run 3 (start 3) [Recv, Put (example_segment 1)]) ! 0 = Woken
      \<and> calls (recv_resume 0 (run 3 (start 3) [Recv, Put (example_segment 1)])) ! 0
          = Returned (Some (example_segment 1)))
   \<and> cursor (hls_output (recv_resume 0 (run 3 (start 3) [Recv, Put (example_segment 1)])))
       = Some 1"
  using recv_moves_shared_cursor [of "run 3 (start 3)
       [Recv, Put (example_segment 5), Resume 0, Cleanup, Put (example_segment 1)]"
       "example_segment 1" 0]
    recv_moves_shared_cursor [of "run 3 (start 3) [Recv, Put (example_segment 1)]"
       "example_segment 1" 0]
  by (simp add: run_def start_def init_def deque_new_def recv_call_def recv_must_wait_def
      async_put_def event_set_def event_clear_def deque_append_def recv_resume_def
      recv_after_wait_def cleanup_def Let_def example_segment_def segments_def
      py_max_default_def py_max_def)

subsection \<open>Runs of the event loop\<close>

lemma run_snoc: "run N s (acts @ [a]) = exec N (run N s acts) a"
  by (simp add: run_def)

lemma run_Nil: "run N s [] = s"
  by (simp add: run_def)

lemma recv_call_eq:
  "recv_call s =
     (if recv_must_wait (hls_output s) \<and> \<not> event (hls_output s)
      then s\<lparr>calls := calls s @ [Waiting]\<rparr>
      else s\<lparr>hls_output := snd (recv_after_wait (hls_output s)),
             calls := calls s @ [Returned (fst (recv_after_wait (hls_output s)))]\<rparr>)"
  by (simp add: recv_call_def case_prod_beta)

lemma recv_resume_eq:
  "recv_resume i s =
     (if i < length (calls s) \<and> calls s ! i = Woken
      then s\<lparr>hls_output := snd (recv_after_wait (hls_output s)),
             calls := (calls s)[i := Returned (fst (recv_after_wait (hls_output s)))]\<rparr>
      else s)"
  by (simp add: recv_resume_def case_prod_beta)

lemma set_update_Returned: "Waiting \<notin> set cs \<Longrightarrow> Waiting \<notin> set (cs[i := Returned r])"
  using set_update_subset_insert [of cs i "Returned r"] by auto

lemma exec_flag_invariant:
  assumes "event (hls_output s) \<longrightarrow>
             items (segments_deque (hls_output s)) = [] \<and> Waiting \<notin> set (calls s)"
  shows "event (hls_output (exec N s a)) \<longrightarrow>
           items (segments_deque (hls_output (exec N s a))) = []
           \<and> Waiting \<notin> set (calls (exec N s a))"
proof (cases a)
  case Recv
  then show ?thesis
    using assms by (simp add: recv_call_eq recv_after_wait_frame)
next
  case (Resume i)
  then show ?thesis
    using assms by (simp add: recv_resume_eq recv_after_wait_frame set_update_Returned)
next
  case (Put seg)
  then show ?thesis by (simp add: async_put_def event_clear_def)
next
  case Cleanup
  then show ?thesis
    using assms by (auto simp: cleanup_def event_set_def deque_new_def Let_def)
qed

lemma run_flag_invariant:
  "event (hls_output (run N (start N) acts)) \<longrightarrow>
     items (segments_deque (hls_output (run N (start N) acts))) = []
     \<and> Waiting \<notin> set (calls (run N (start N) acts))"
proof (induction acts rule: rev_induct)
  case Nil
  show ?case by (simp add: run_def start_def init_def)
next
  case (snoc a acts)
  then show ?case
    unfolding run_snoc by (rule exec_flag_invariant)
qed

subsection \<open>After \<^verbatim>\<open>cleanup\<close>\<close>

lemma ended_exec:
  assumes "event (hls_output s)" "items (segments_deque (hls_output s)) = []" "\<not> is_put a"
  shows "event (hls_output (exec N s a))
     \<and> items (segments_deque (hls_output (exec N s a))) = []
     \<and> length (calls s) \<le> length (calls (exec N s a))
     \<and> (\<forall>i < length (calls s).
          calls (exec N s a) ! i = calls s ! i
          \<or> calls s ! i = Woken \<and> calls (exec N s a) ! i = Returned None)
     \<and> (\<forall>i. length (calls s) \<le> i \<and> i < length (calls (exec N s a)) \<longrightarrow>
          calls (exec N s a) ! i = Returned None)"
proof (cases a)
  case Recv
  then show ?thesis
    using assms
    by (simp add: recv_call_eq recv_after_wait_empty nth_append less_Suc_eq_le)
next
  case (Resume j)
  then show ?thesis
    using assms
    by (auto simp: recv_resume_eq recv_after_wait_empty nth_list_update)
next
  case (Put seg)
  with assms show ?thesis by simp
next
  case Cleanup
  then show ?thesis
    using assms by (auto simp: cleanup_def event_set_def deque_new_def Let_def)
qed

lemma ended_run:
  assumes "event (hls_output s)" "items (segments_deque (hls_output s)) = []"
    "\<forall>a \<in> set acts. \<not> is_put a"
  shows "event (hls_output (run N s acts))
     \<and> items (segments_deque (hls_output (run N s acts))) = []
     \<and> length (calls s) \<le> length (calls (run N s acts))
     \<and> (\<forall>i < length (calls s).
          calls (run N s acts) ! i = calls s ! i
          \<or> calls s ! i = Woken \<and> calls (run N s acts) ! i = Returned None)
     \<and> (\<forall>i. length (calls s) \<le> i \<and> i < length (calls (run N s acts)) \<longrightarrow>
          calls (run N s acts) ! i = Returned None)"
  using assms(3)
proof (induction acts rule: rev_induct)
  case Nil
  show ?case using assms(1,2) by (auto simp: run_Nil)
next
  case (snoc a acts)
  let ?s1 = "run N s acts"
  let ?s2 = "exec N ?s1 a"
  from snoc have ih: "event (hls_output ?s1)" "items (segments_deque (hls_output ?s1)) = []"
      "length (calls s) \<le> length (calls ?s1)"
      "\<forall>i < length (calls s). calls ?s1 ! i = calls s ! i
          \<or> calls s ! i = Woken \<and> calls ?s1 ! i = Returned None"
      "\<forall>i. length (calls s) \<le> i \<and> i < length (calls ?s1) \<longrightarrow> calls ?s1 ! i = Returned None"
    by simp_all
  from snoc.prems have na: "\<not> is_put a" by simp
  note st = ended_exec [OF ih(1) ih(2) na, of N]
  have old: "calls ?s2 ! i = calls s ! i \<or> calls s ! i = Woken \<and> calls ?s2 ! i = Returned None"
    if "i < length (calls s)" for i
  proof -
    from that ih(3) have "i < length (calls ?s1)" by simp
    with st have "calls ?s2 ! i = calls ?s1 ! i
        \<or> calls ?s1 ! i = Woken \<and> calls ?s2 ! i = Returned None" by blast
    with ih(4) that show ?thesis by auto
  qed
  have new: "calls ?s2 ! i = Returned None"
    if "length (calls s) \<le> i" "i < length (calls ?s2)" for i
  proof (cases "i < length (calls ?s1)")
    case True
    with that ih(5) have "calls ?s1 ! i = Returned None" by simp
    moreover from True st have "calls ?s2 ! i = calls ?s1 ! i
        \<or> calls ?s1 ! i = Woken \<and> calls ?s2 ! i = Returned None" by blast
    ultimately show ?thesis by auto
  next
    case False
    with that st show ?thesis by simp
  qed
  from st ih(3) have "length (calls s) \<le> length (calls ?s2)" by linarith
  with st old new show ?case unfolding run_snoc by blast
qed


lemma cleanup_effect:
  assumes "event (hls_output s) \<longrightarrow> Waiting \<notin> set (calls s)"
  shows "event (hls_output (cleanup N s))
     \<and> items (segments_deque (hls_output (cleanup N s))) = []
     \<and> length (calls (cleanup N s)) = length (calls s)
     \<and> (\<forall>i < length (calls s). calls s ! i = Waiting \<or> calls s ! i = Woken \<longrightarrow>
            calls (cleanup N s) ! i = Woken)"
proof (cases "event (hls_output s)")
  case True
  with assms have "\<forall>i < length (calls s). calls s ! i \<noteq> Waiting"
    by (metis nth_mem)
  with True show ?thesis
    by (simp add: cleanup_def event_set_def deque_new_def Let_def)
next
  case False
  then show ?thesis
    by (auto simp: cleanup_def event_set_def deque_new_def Let_def)
qed

text \<open>
  C6, as amended. Let \<^verbatim>\<open>cleanup\<close> run in a state the event loop can reach. The list
  of sequence numbers is empty after it. As long as no append follows it, whatever
  other callbacks run, the list stays empty; every call of \<^verbatim>\<open>recv\<close> that had not
  returned when \<^verbatim>\<open>cleanup\<close> ran has its future resolved and returns \<^verbatim>\<open>None\<close> when
  it goes on; and every call issued afterwards returns \<^verbatim>\<open>None\<close> without being
  suspended.
\<close>

theorem teardown_ends_stream:
  assumes "\<forall>a \<in> set acts. \<not> is_put a"
  shows "let s0 = run N (start N) pre; s1 = cleanup N s0; s = run N s1 acts
    in segments (hls_output s1) = [] \<and> segments (hls_output s) = []
     \<and> (\<forall>i < length (calls s0). calls s0 ! i = Waiting \<or> calls s0 ! i = Woken \<longrightarrow>
           calls s1 ! i = Woken
           \<and> (calls s ! i = Woken \<or> calls s ! i = Returned None)
           \<and> calls (recv_resume i s) ! i = Returned None)
     \<and> (\<forall>i. length (calls s0) \<le> i \<and> i < length (calls s) \<longrightarrow> calls s ! i = Returned None)
     \<and> calls (recv_call s) = calls s @ [Returned None]"
proof -
  let ?pre = "run N (start N) pre"
  let ?td = "cleanup N ?pre"
  let ?fin = "run N ?td acts"
  have inv: "event (hls_output ?pre) \<longrightarrow> Waiting \<notin> set (calls ?pre)"
    using run_flag_invariant [of N pre] by simp
  note c = cleanup_effect [OF inv, of N]
  from c have e1: "event (hls_output ?td)" "items (segments_deque (hls_output ?td)) = []"
    by simp_all
  note r = ended_run [OF e1 assms, of N]
  from r have e: "event (hls_output ?fin)" "items (segments_deque (hls_output ?fin)) = []"
    by simp_all
  have pending: "calls ?td ! i = Woken
      \<and> (calls ?fin ! i = Woken \<or> calls ?fin ! i = Returned None)
      \<and> calls (recv_resume i ?fin) ! i = Returned None"
    if "i < length (calls ?pre)" "calls ?pre ! i = Waiting \<or> calls ?pre ! i = Woken" for i
  proof -
    from that c have w: "calls ?td ! i = Woken" and l: "i < length (calls ?td)" by auto
    from r l have "calls ?fin ! i = calls ?td ! i
        \<or> calls ?td ! i = Woken \<and> calls ?fin ! i = Returned None" by blast
    with w have d: "calls ?fin ! i = Woken \<or> calls ?fin ! i = Returned None" by auto
    from r l have l2: "i < length (calls ?fin)" by linarith
    from d l2 e have "calls (recv_resume i ?fin) ! i = Returned None"
      by (auto simp: recv_resume_eq recv_after_wait_empty)
    with w d show ?thesis by simp
  qed
  have later: "calls ?fin ! i = Returned None"
    if "length (calls ?pre) \<le> i" "i < length (calls ?fin)" for i
  proof -
    from c that have "length (calls ?td) \<le> i" by simp
    with r that show ?thesis by blast
  qed
  have fresh: "calls (recv_call ?fin) = calls ?fin @ [Returned None]"
    using e by (simp add: recv_call_eq recv_after_wait_empty)
  show ?thesis
    unfolding Let_def using e1 e pending later fresh by (simp add: segments_def)
qed

theorem teardown_ends_stream_witness:
  "\<not> is_put Recv \<and> \<not> is_put (Resume 0) \<and> \<not> is_put Cleanup \<and> \<not> is_put (Resume 1)
   \<and> calls (run 3 (start 3) [Recv, Put (example_segment 1), Recv]) = [Woken, Waiting]
   \<and> segments (hls_output (run 3 (cleanup 3 (run 3 (start 3)
        [Recv, Put (example_segment 1), Recv])) [Recv, Resume 0, Cleanup, Resume 1])) = []
   \<and> calls (recv_resume 1 (run 3 (cleanup 3 (run 3 (start 3)
        [Recv, Put (example_segment 1), Recv])) [Recv, Resume 0, Cleanup, Resume 1])) ! 1
       = Returned None
   \<and> calls (recv_call (run 3 (cleanup 3 (run 3 (start 3)
        [Recv, Put (example_segment 1), Recv])) [Recv, Resume 0, Cleanup, Resume 1]))
       = calls (run 3 (cleanup 3 (run 3 (start 3)
        [Recv, Put (example_segment 1), Recv])) [Recv, Resume 0, Cleanup, Resume 1])
         @ [Returned None]"
proof -
  have h: "\<forall>a \<in> set [Recv, Resume 0, Cleanup, Resume 1]. \<not> is_put a"
    by simp
  have pre: "calls (run 3 (start 3) [Recv, Put (example_segment 1), Recv]) = [Woken, Waiting]"
    by (simp add: run_def start_def init_def deque_new_def recv_call_eq recv_must_wait_def
        async_put_def event_set_def event_clear_def deque_append_def
        recv_after_wait_def Let_def segments_def py_max_default_def py_max_def)
  note t = teardown_ends_stream [OF h, of 3 "[Recv, Put (example_segment 1), Recv]",
      unfolded Let_def]
  from t have "1 < length (calls (run 3 (start 3) [Recv, Put (example_segment 1), Recv])) \<longrightarrow>
      calls (run 3 (start 3) [Recv, Put (example_segment 1), Recv]) ! 1 = Waiting \<longrightarrow>
      calls (recv_resume 1 (run 3 (cleanup 3 (run 3 (start 3)
        [Recv, Put (example_segment 1), Recv])) [Recv, Resume 0, Cleanup, Resume 1])) ! 1
       = Returned None"
    by blast
  then have r: "calls (recv_resume 1 (run 3 (cleanup 3 (run 3 (start 3)
        [Recv, Put (example_segment 1), Recv])) [Recv, Resume 0, Cleanup, Resume 1])) ! 1
       = Returned None"
    by (simp add: pre)
  from pre r t show ?thesis by simp
qed

text \<open>
  C6 as stated fails: nothing in \<^verbatim>\<open>_async_put\<close> looks at whether \<^verbatim>\<open>cleanup\<close> has
  run. An append after \<^verbatim>\<open>cleanup\<close> stores its segment and clears the event, so the
  list is not empty, a call of \<^verbatim>\<open>recv\<close> issued then is suspended, and a call that
  was pending at the time of \<^verbatim>\<open>cleanup\<close> and goes on after the append returns the
  segment.
\<close>

theorem teardown_then_append_counterexample:
  "segments (hls_output (run 3 (start 3) [Cleanup, Put (example_segment 1)])) = [1]
   \<and> calls (run 3 (start 3) [Cleanup, Put (example_segment 1), Recv]) = [Waiting]
   \<and> calls (run 3 (start 3) [Recv, Cleanup, Put (example_segment 1), Resume 0])
       = [Returned (Some (example_segment 1))]"
  by (simp add: run_def start_def init_def deque_new_def recv_call_eq recv_resume_eq
      recv_must_wait_def async_put_def event_set_def event_clear_def deque_append_def
      recv_after_wait_def cleanup_def Let_def example_segment_def segments_def
      py_max_default_def py_max_def)

subsection \<open>A suspended call\<close>

lemma waiting_kept_exec:
  assumes "i < length (calls s)" "calls s ! i = Waiting" "\<not> is_signal a"
  shows "i < length (calls (exec N s a)) \<and> calls (exec N s a) ! i = Waiting"
proof (cases a)
  case Recv
  then show ?thesis using assms by (simp add: recv_call_eq nth_append)
next
  case (Resume j)
  then show ?thesis using assms by (auto simp: recv_resume_eq nth_list_update)
next
  case (Put seg)
  with assms show ?thesis by simp
next
  case Cleanup
  with assms show ?thesis by simp
qed

lemma waiting_kept_run:
  assumes "i < length (calls s)" "calls s ! i = Waiting" "\<forall>a \<in> set acts. \<not> is_signal a"
  shows "i < length (calls (run N s acts)) \<and> calls (run N s acts) ! i = Waiting"
  using assms(3)
proof (induction acts rule: rev_induct)
  case Nil
  show ?case using assms(1,2) by (simp add: run_Nil)
next
  case (snoc a acts)
  then have "i < length (calls (run N s acts))" "calls (run N s acts) ! i = Waiting"
    "\<not> is_signal a" by simp_all
  then show ?case unfolding run_snoc by (rule waiting_kept_exec)
qed

lemma async_put_wakes:
  assumes "\<not> event (hls_output s)" "i < length (calls s)" "calls s ! i = Waiting"
  shows "calls (async_put s x) ! i = Woken \<and> length (calls (async_put s x)) = length (calls s)"
  using assms by (simp add: async_put_def event_set_def event_clear_def)

lemma deque_append_last:
  "items d \<noteq> [] \<or> 0 < maxlen d \<Longrightarrow>
   items (deque_append d x) \<noteq> [] \<and> last (items (deque_append d x)) = x"
  by (cases "items d") (auto simp: deque_append_def Let_def)

lemma recv_resume_newest:
  assumes "i < length (calls s)" "calls s ! i = Woken"
    "items (segments_deque (hls_output s)) \<noteq> []"
  shows "calls (recv_resume i s) ! i
           = Returned (Some (last (items (segments_deque (hls_output s)))))"
  using assms by (simp add: recv_resume_eq recv_after_wait_nonempty)

text \<open>
  C7. In a state the event loop can reach, with no cursor and a non-empty buffer, a
  call of \<^verbatim>\<open>recv\<close> does not return: it is suspended on the event and changes
  nothing. It stays suspended through every callback that is neither an append nor
  \<^verbatim>\<open>cleanup\<close>. An append resolves its future, and when the call then goes on it
  returns the appended segment, the newest of the buffer. In general a resumed call
  returns the last segment the buffer holds at that moment.
\<close>

theorem first_recv_waits_for_signal:
  assumes "cursor (hls_output (run N (start N) pre)) = None"
    and "items (segments_deque (hls_output (run N (start N) pre))) \<noteq> []"
  shows "let s0 = run N (start N) pre; s1 = recv_call s0; i = length (calls s0)
    in calls s1 = calls s0 @ [Waiting] \<and> hls_output s1 = hls_output s0
     \<and> (\<forall>acts. (\<forall>a \<in> set acts. \<not> is_signal a) \<longrightarrow> calls (run N s1 acts) ! i = Waiting)
     \<and> (\<forall>x. calls (async_put s1 x) ! i = Woken
            \<and> last (items (segments_deque (hls_output (async_put s1 x)))) = x
            \<and> calls (recv_resume i (async_put s1 x)) ! i = Returned (Some x))
     \<and> (\<forall>s. i < length (calls s) \<and> calls s ! i = Woken
              \<and> items (segments_deque (hls_output s)) \<noteq> [] \<longrightarrow>
            calls (recv_resume i s) ! i
              = Returned (Some (last (items (segments_deque (hls_output s))))))"
proof -
  let ?a = "run N (start N) pre"
  let ?b = "recv_call ?a"
  let ?i = "length (calls ?a)"
  have flag: "\<not> event (hls_output ?a)"
    using run_flag_invariant [of N pre] assms(2) by auto
  have wait: "recv_must_wait (hls_output ?a)"
    using assms(1) by (simp add: recv_must_wait_def)
  have b: "?b = ?a\<lparr>calls := calls ?a @ [Waiting]\<rparr>"
    using flag wait by (simp add: recv_call_eq)
  have b1: "calls ?b = calls ?a @ [Waiting]" and b2: "hls_output ?b = hls_output ?a"
    by (simp_all add: b)
  have i: "?i < length (calls ?b)" "calls ?b ! ?i = Waiting"
    by (simp_all add: b1)
  have stay: "calls (run N ?b acts) ! ?i = Waiting" if "\<forall>a \<in> set acts. \<not> is_signal a" for acts
    using waiting_kept_run [OF i that] by simp
  have put: "calls (async_put ?b x) ! ?i = Woken
      \<and> last (items (segments_deque (hls_output (async_put ?b x)))) = x
      \<and> calls (recv_resume ?i (async_put ?b x)) ! ?i = Returned (Some x)" for x
  proof -
    have f: "\<not> event (hls_output ?b)" using flag by (simp add: b2)
    note w = async_put_wakes [OF f i, of x]
    have "items (segments_deque (hls_output ?b)) \<noteq> []" using assms(2) by (simp add: b2)
    then have l: "items (segments_deque (hls_output (async_put ?b x))) \<noteq> []
        \<and> last (items (segments_deque (hls_output (async_put ?b x)))) = x"
      by (simp add: async_put_deque deque_append_last)
    from w i have "?i < length (calls (async_put ?b x))" by simp
    with w l have "calls (recv_resume ?i (async_put ?b x)) ! ?i = Returned (Some x)"
      using recv_resume_newest [of ?i "async_put ?b x"] by simp
    with w l show ?thesis by simp
  qed
  show ?thesis
    unfolding Let_def using b1 b2 stay put recv_resume_newest by blast
qed

theorem first_recv_waits_for_signal_witness:
  "cursor (hls_output (run 3 (start 3) [Put (example_segment 1)])) = None
   \<and> items (segments_deque (hls_output (run 3 (start 3) [Put (example_segment 1)]))) \<noteq> []
   \<and> calls (recv_call (run 3 (start 3) [Put (example_segment 1)])) = [Waiting]
   \<and> calls (async_put (recv_call (run 3 (start 3) [Put (example_segment 1)]))
        (example_segment 2)) ! 0 = Woken
   \<and> calls (recv_resume 0 (async_put (recv_call (run 3 (start 3) [Put (example_segment 1)]))
        (example_segment 2))) ! 0 = Returned (Some (example_segment 2))"
proof -
  have ev: "run 3 (start 3) [Put (example_segment 1)]
      = \<lparr>hls_output = \<lparr>cursor = None, event = False,
           segments_deque = \<lparr>maxlen = 3, items = [example_segment 1]\<rparr>\<rparr>, calls = []\<rparr>"
    by (simp add: run_def start_def init_def deque_new_def async_put_def event_set_def
        event_clear_def deque_append_def Let_def)
  have h1: "cursor (hls_output (run 3 (start 3) [Put (example_segment 1)])) = None"
    and h2: "items (segments_deque (hls_output (run 3 (start 3) [Put (example_segment 1)]))) \<noteq> []"
    by (simp_all add: ev)
  have l: "length (calls (run 3 (start 3) [Put (example_segment 1)])) = 0"
    and c: "calls (run 3 (start 3) [Put (example_segment 1)]) = []"
    by (simp_all add: ev)
  note t = first_recv_waits_for_signal [OF h1 h2, unfolded Let_def l c]
  from h1 h2 t show ?thesis by simp
qed

subsection \<open>Effects of rendering\<close>

lemma set_payload_frame:
  "length (set_payload xs s b) = length xs
   \<and> map sequence (set_payload xs s b) = map sequence xs
   \<and> map duration (set_payload xs s b) = map duration xs"
  by (induction xs) auto

lemma set_payload_others:
  "i < length xs \<Longrightarrow> sequence (xs ! i) \<noteq> s \<Longrightarrow> set_payload xs s b ! i = xs ! i"
proof (induction xs arbitrary: i)
  case Nil
  then show ?case by simp
next
  case (Cons x xs)
  then show ?case by (cases i) auto
qed

lemma set_payload_data:
  "scan xs s = Found seg \<Longrightarrow> data b = data (segment seg) \<Longrightarrow>
   map (\<lambda>x. data (segment x)) (set_payload xs s b) = map (\<lambda>x. data (segment x)) xs"
  by (induction xs) (auto split: if_splits)

lemma scan_Found: "scan xs s = Found seg \<Longrightarrow> seg \<in> set xs \<and> sequence seg = s"
  by (induction xs) (auto split: if_splits)

lemma master_render_state:
  "snd (HlsMasterPlaylistView_render g t) =
     (if segments t = [] then t
      else case get_segment t (Some (last (segments t))) of
             Found seg \<Rightarrow>
               (case bandwidth_of (length (data (segment seg))) (duration seg) of
                  Inl e \<Rightarrow> store_payload t (sequence seg) (snd (seek_end (segment seg)))
                | Inr bw \<Rightarrow>
                    store_payload t (sequence seg) (snd (g (snd (seek_end (segment seg))))))
           | Whole d \<Rightarrow> t
           | NotFound \<Rightarrow> t)"
  by (simp add: HlsMasterPlaylistView_render_def seek_end_def Let_def
      case_prod_beta split: get_result.splits sum.splits)

lemma store_payload_frame:
  "cursor (store_payload t s b) = cursor t
   \<and> event (store_payload t s b) = event t
   \<and> maxlen (segments_deque (store_payload t s b)) = maxlen (segments_deque t)
   \<and> length (items (segments_deque (store_payload t s b))) = length (items (segments_deque t))
   \<and> segments (store_payload t s b) = segments t
   \<and> map duration (items (segments_deque (store_payload t s b)))
       = map duration (items (segments_deque t))"
  by (simp add: store_payload_def segments_def set_payload_frame)


lemma get_segment_Found:
  "get_segment t (Some s) = Found seg \<Longrightarrow>
   scan (items (segments_deque t)) s = Found seg \<and> sequence seg = s"
  by (auto simp: get_segment_def scan_Found split: if_splits)

lemma master_render_cases:
  "snd (HlsMasterPlaylistView_render g t) = t
   \<or> (\<exists>seg b. scan (items (segments_deque t)) (last (segments t)) = Found seg
          \<and> data b = data (segment seg)
          \<and> snd (HlsMasterPlaylistView_render g t) = store_payload t (last (segments t)) b)
   \<or> (\<exists>seg. scan (items (segments_deque t)) (last (segments t)) = Found seg
          \<and> snd (HlsMasterPlaylistView_render g t)
             = store_payload t (last (segments t)) (snd (g (snd (seek_end (segment seg))))))"
proof (cases "segments t = []")
  case True
  then show ?thesis by (simp add: master_render_state)
next
  case False
  show ?thesis
  proof (cases "get_segment t (Some (last (segments t)))")
    case (Whole d)
    with False show ?thesis by (simp add: master_render_state)
  next
    case NotFound
    with False show ?thesis by (simp add: master_render_state)
  next
    case (Found seg)
    note f = get_segment_Found [OF Found]
    show ?thesis
    proof (cases "bandwidth_of (length (data (segment seg))) (duration seg)")
      case (Inl e)
      have "data (snd (seek_end (segment seg))) = data (segment seg)"
        by (simp add: seek_end_def)
      moreover have "snd (HlsMasterPlaylistView_render g t)
          = store_payload t (last (segments t)) (snd (seek_end (segment seg)))"
        using False Found Inl f by (simp add: master_render_state)
      ultimately show ?thesis using f by blast
    next
      case (Inr bw)
      have "snd (HlsMasterPlaylistView_render g t)
          = store_payload t (last (segments t)) (snd (g (snd (seek_end (segment seg)))))"
        using False Found Inr f by (simp add: master_render_state)
      then show ?thesis using f by blast
    qed
  qed
qed

lemma master_render_success:
  assumes "fst (HlsMasterPlaylistView_render g t) = Inr body"
  shows "\<exists>seg. scan (items (segments_deque t)) (last (segments t)) = Found seg
      \<and> snd (HlsMasterPlaylistView_render g t)
         = store_payload t (last (segments t))
             (snd (g ((segment seg)\<lparr>pos := length (data (segment seg))\<rparr>)))"
proof -
  from assms have ne: "segments t \<noteq> []"
    by (auto simp: HlsMasterPlaylistView_render_def)
  from assms ne obtain seg where found: "get_segment t (Some (last (segments t))) = Found seg"
    by (cases "get_segment t (Some (last (segments t)))")
       (auto simp: HlsMasterPlaylistView_render_def)
  note f = get_segment_Found [OF found]
  from assms ne found obtain bw
    where "bandwidth_of (length (data (segment seg))) (duration seg) = Inr bw"
    by (cases "bandwidth_of (length (data (segment seg))) (duration seg)")
       (auto simp: HlsMasterPlaylistView_render_def seek_end_def Let_def case_prod_beta)
  with ne found f have "snd (HlsMasterPlaylistView_render g t)
      = store_payload t (last (segments t))
          (snd (g ((segment seg)\<lparr>pos := length (data (segment seg))\<rparr>)))"
    by (simp add: master_render_state seek_end_def)
  with f show ?thesis by blast
qed


text \<open>
  C3, as amended. Rendering the segment playlist leaves the stream output as it is.
  Rendering the master playlist leaves the cursor, the event, the capacity, the
  sequence numbers, the durations and the order of the retained segments as they are,
  and does not touch a segment whose sequence number is not that of the last one; with
  a codec helper that does not write to the stream, no payload byte changes. It does
  move the read position of the payload it measures: on success that payload is the
  stream the codec helper returns for the payload positioned at its end.
\<close>

theorem render_effects:
  "snd (HlsPlaylistView_render NUM t) = t
   \<and> (let t' = snd (HlsMasterPlaylistView_render g t)
      in cursor t' = cursor t \<and> event t' = event t
       \<and> maxlen (segments_deque t') = maxlen (segments_deque t)
       \<and> segments t' = segments t
       \<and> map duration (items (segments_deque t')) = map duration (items (segments_deque t))
       \<and> (\<forall>i < length (items (segments_deque t)).
             sequence (items (segments_deque t) ! i) \<noteq> last (segments t) \<longrightarrow>
             items (segments_deque t') ! i = items (segments_deque t) ! i)
       \<and> ((\<forall>b. data (snd (g b)) = data b) \<longrightarrow>
             map (\<lambda>x. data (segment x)) (items (segments_deque t'))
               = map (\<lambda>x. data (segment x)) (items (segments_deque t)))
       \<and> (\<forall>body. fst (HlsMasterPlaylistView_render g t) = Inr body \<longrightarrow>
             (\<exists>seg. scan (items (segments_deque t)) (last (segments t)) = Found seg
                \<and> items (segments_deque t')
                   = set_payload (items (segments_deque t)) (last (segments t))
                       (snd (g ((segment seg)\<lparr>pos := length (data (segment seg))\<rparr>))))))"
proof -
  let ?r = "snd (HlsMasterPlaylistView_render g t)"
  have media: "snd (HlsPlaylistView_render NUM t) = t"
    by (simp add: HlsPlaylistView_render_def split: sum.splits)
  have shape: "?r = t \<or> (\<exists>b. ?r = store_payload t (last (segments t)) b)"
    using master_render_cases [of g t] by blast
  have frame: "cursor ?r = cursor t \<and> event ?r = event t
      \<and> maxlen (segments_deque ?r) = maxlen (segments_deque t)
      \<and> segments ?r = segments t
      \<and> map duration (items (segments_deque ?r)) = map duration (items (segments_deque t))"
    using shape store_payload_frame by metis
  have others: "items (segments_deque ?r) ! i = items (segments_deque t) ! i"
    if "i < length (items (segments_deque t))"
      "sequence (items (segments_deque t) ! i) \<noteq> last (segments t)" for i
    using shape that by (auto simp: store_payload_def set_payload_others)
  have bytes: "map (\<lambda>x. data (segment x)) (items (segments_deque ?r))
      = map (\<lambda>x. data (segment x)) (items (segments_deque t))"
    if g: "\<forall>b. data (snd (g b)) = data b"
  proof -
    have "data (snd (g (snd (seek_end b)))) = data b" for b
      using g by (simp add: seek_end_def)
    then show ?thesis
      using master_render_cases [of g t]
      by (auto simp: store_payload_def set_payload_data)
  qed
  have moved: "\<exists>seg. scan (items (segments_deque t)) (last (segments t)) = Found seg
      \<and> items (segments_deque ?r)
         = set_payload (items (segments_deque t)) (last (segments t))
             (snd (g ((segment seg)\<lparr>pos := length (data (segment seg))\<rparr>)))"
    if "fst (HlsMasterPlaylistView_render g t) = Inr body" for body
    using master_render_success [OF that] by (auto simp: store_payload_def)
  show ?thesis
    unfolding Let_def using media frame others bytes moved by blast
qed

lemma bandwidth_of_examples:
  "bandwidth_of 3 6 = Inr 5" "bandwidth_of 750000 6 = Inr 1200000"
  by (simp_all add: bandwidth_of_def float_truediv_def float_of_int_def float_mul_def
      float_round_def to_float_def fl_def ilog2_def compute_floorlog pow2_def py_round_def
      Let_def floor_rat_numeral)

text \<open>
  The two ways the computation fails: a duration of 0, and a duration so small that
  the quotient is beyond the largest float, which \<^verbatim>\<open>round\<close> refuses.
\<close>

lemma bandwidth_of_failures:
  "bandwidth_of 750000 0 = Inl ZeroDivisionError"
  "bandwidth_of 750000 (1 / 2 ^ 1002) = Inl OverflowError"
  by (simp_all add: bandwidth_of_def float_truediv_def float_of_int_def float_mul_def
      float_round_def to_float_def fl_def ilog2_def compute_floorlog pow2_def py_round_def
      Let_def floor_rat_numeral)

lemma bandwidth_of_three: "bandwidth_of (Suc (Suc (Suc 0))) 6 = Inr 5"
  using bandwidth_of_examples(1) by (simp add: numeral_3_eq_3)

lemma show_int_bandwidths:
  "show_int 5 = ''5''" "show_int 1200000 = ''1200000''"
  by (simp_all add: show_int_def show_nat.simps)

lemma master_render_two:
  "HlsMasterPlaylistView_render codec_stub (track_of 3
      [\<lparr>sequence = 1, segment = payload [7], duration = 6\<rparr>,
       \<lparr>sequence = 2, segment = payload [7, 8, 9], duration = 6\<rparr>])
   = (Inr (join_lines
        [''#EXTM3U'',
         ''#EXT-X-STREAM-INF:BANDWIDTH=5,CODECS='' @ [CHR 0x22] @ ''avc1.640028'' @ [CHR 0x22],
         ''playlist.m3u8''] @ [CHR 0x0A]),
      track_of 3
      [\<lparr>sequence = 1, segment = payload [7], duration = 6\<rparr>,
       \<lparr>sequence = 2, segment = \<lparr>data = [7, 8, 9], pos = 3\<rparr>, duration = 6\<rparr>])"
  by (simp add: HlsMasterPlaylistView_render_def track_of_def payload_def segments_def
      get_segment_def seek_end_def store_payload_def codec_stub_def bandwidth_of_three
      show_int_bandwidths)

theorem render_effects_witness:
  "(\<forall>b. data (snd (codec_stub b)) = data b)
   \<and> (0 < length (items (segments_deque (track_of 3
         [\<lparr>sequence = 1, segment = payload [7], duration = 6\<rparr>,
          \<lparr>sequence = 2, segment = payload [7, 8, 9], duration = 6\<rparr>])))
      \<and> sequence (items (segments_deque (track_of 3
         [\<lparr>sequence = 1, segment = payload [7], duration = 6\<rparr>,
          \<lparr>sequence = 2, segment = payload [7, 8, 9], duration = 6\<rparr>])) ! 0)
        \<noteq> last (segments (track_of 3
         [\<lparr>sequence = 1, segment = payload [7], duration = 6\<rparr>,
          \<lparr>sequence = 2, segment = payload [7, 8, 9], duration = 6\<rparr>])))
   \<and> fst (HlsMasterPlaylistView_render codec_stub (track_of 3
         [\<lparr>sequence = 1, segment = payload [7], duration = 6\<rparr>,
          \<lparr>sequence = 2, segment = payload [7, 8, 9], duration = 6\<rparr>]))
       = Inr (join_lines
          [''#EXTM3U'',
           ''#EXT-X-STREAM-INF:BANDWIDTH=5,CODECS='' @ [CHR 0x22] @ ''avc1.640028'' @ [CHR 0x22],
           ''playlist.m3u8''] @ [CHR 0x0A])
   \<and> segments (snd (HlsMasterPlaylistView_render codec_stub (track_of 3
         [\<lparr>sequence = 1, segment = payload [7], duration = 6\<rparr>,
          \<lparr>sequence = 2, segment = payload [7, 8, 9], duration = 6\<rparr>]))) = [1, 2]
   \<and> map (\<lambda>x. data (segment x)) (items (segments_deque
        (snd (HlsMasterPlaylistView_render codec_stub (track_of 3
         [\<lparr>sequence = 1, segment = payload [7], duration = 6\<rparr>,
          \<lparr>sequence = 2, segment = payload [7, 8, 9], duration = 6\<rparr>]))))) = [[7], [7, 8, 9]]"
proof -
  let ?t = "track_of 3
         [\<lparr>sequence = 1, segment = payload [7], duration = 6\<rparr>,
          \<lparr>sequence = 2, segment = payload [7, 8, 9], duration = 6\<rparr>]"
  have g: "\<forall>b. data (snd (codec_stub b)) = data b"
    by (simp add: codec_stub_def)
  have i: "0 < length (items (segments_deque ?t))
      \<and> sequence (items (segments_deque ?t) ! 0) \<noteq> last (segments ?t)"
    by (simp add: track_of_def segments_def)
  have v: "segments ?t = [1, 2]"
      "map (\<lambda>x. data (segment x)) (items (segments_deque ?t)) = [[7], [7, 8, 9]]"
    by (simp_all add: track_of_def segments_def payload_def)
  note e = render_effects [of 3 ?t codec_stub, unfolded Let_def]
  from e g have "segments (snd (HlsMasterPlaylistView_render codec_stub ?t)) = segments ?t"
    "map (\<lambda>x. data (segment x))
       (items (segments_deque (snd (HlsMasterPlaylistView_render codec_stub ?t))))
     = map (\<lambda>x. data (segment x)) (items (segments_deque ?t))"
    by blast+
  with v g i show ?thesis
    by (simp add: master_render_two)
qed

text \<open>
  C3 as stated fails: rendering the master playlist of a buffer whose newest payload is
  at read position 0 leaves that payload at position 3, the end of its three bytes,
  even with a codec helper that does not touch the stream.
\<close>

theorem render_master_moves_position_counterexample:
  "pos (segment (last (items (segments_deque (track_of 3
      [\<lparr>sequence = 1, segment = payload [7], duration = 6\<rparr>,
       \<lparr>sequence = 2, segment = payload [7, 8, 9], duration = 6\<rparr>]))))) = 0
   \<and> pos (segment (last (items (segments_deque
       (snd (HlsMasterPlaylistView_render codec_stub (track_of 3
      [\<lparr>sequence = 1, segment = payload [7], duration = 6\<rparr>,
       \<lparr>sequence = 2, segment = payload [7, 8, 9], duration = 6\<rparr>]))))))) = 3
   \<and> snd (HlsMasterPlaylistView_render codec_stub (track_of 3
      [\<lparr>sequence = 1, segment = payload [7], duration = 6\<rparr>,
       \<lparr>sequence = 2, segment = payload [7, 8, 9], duration = 6\<rparr>]))
     \<noteq> track_of 3
      [\<lparr>sequence = 1, segment = payload [7], duration = 6\<rparr>,
       \<lparr>sequence = 2, segment = payload [7, 8, 9], duration = 6\<rparr>]"
  by (simp add: master_render_two) (simp add: track_of_def payload_def)

subsection \<open>The announced bandwidth\<close>

lemma scan_last_distinct:
  "xs \<noteq> [] \<Longrightarrow> distinct (map sequence xs) \<Longrightarrow> scan xs (sequence (last xs)) = Found (last xs)"
  by (induction xs) auto

text \<open>
  When the newest segment has a sequence number other than 0, the sequence numbers are
  distinct and the duration is not 0, the stream-info line of the master playlist
  carries \<^verbatim>\<open>round(size * 8 / duration * 1.2)\<close> of the newest segment, computed in
  binary64, \<open>size\<close> being the length of its payload.
\<close>

lemma master_render_bandwidth:
  assumes "items (segments_deque t) \<noteq> []"
    and "sequence (last (items (segments_deque t))) \<noteq> 0"
    and "distinct (segments t)"
    and "bandwidth_of (length (data (segment (last (items (segments_deque t))))))
           (duration (last (items (segments_deque t)))) = Inr bw"
    and "fst (g ((segment (last (items (segments_deque t))))
           \<lparr>pos := length (data (segment (last (items (segments_deque t)))))\<rparr>)) = Inr codecs"
  shows "fst (HlsMasterPlaylistView_render g t)
     = Inr (join_lines
         [''#EXTM3U'',
          ''#EXT-X-STREAM-INF:BANDWIDTH='' @ show_int bw
            @ '',CODECS='' @ [CHR 0x22] @ codecs @ [CHR 0x22],
          ''playlist.m3u8''] @ [CHR 0x0A])"
proof -
  let ?seg = "last (items (segments_deque t))"
  have l: "last (segments t) = sequence ?seg"
    using assms(1) by (simp add: segments_def last_map)
  have "scan (items (segments_deque t)) (sequence ?seg) = Found ?seg"
    using assms(1,3) by (simp add: scan_last_distinct segments_def)
  then have f: "get_segment t (Some (last (segments t))) = Found ?seg"
    using assms(2) by (simp add: get_segment_def l)
  have ne: "segments t \<noteq> []"
    using assms(1) by (simp add: segments_def)
  show ?thesis
    using ne f assms(4,5)
    by (simp add: HlsMasterPlaylistView_render_def seek_end_def case_prod_beta Let_def)
qed

text \<open>
  C8 at the sequence number 0. For a single segment of 750000 bytes and 6.0 seconds
  with the sequence number 0 the lookup of the newest segment returns the deque, and
  reading its payload fails with AttributeError: no bandwidth is announced. The same
  segment with the sequence number 1 gives 1200000.
\<close>

theorem render_master_sequence_zero:
  "HlsMasterPlaylistView_render codec_stub (track_of 3
      [\<lparr>sequence = 0, segment = payload (replicate 750000 0), duration = 6\<rparr>])
   = (Inl AttributeError, track_of 3
      [\<lparr>sequence = 0, segment = payload (replicate 750000 0), duration = 6\<rparr>])
   \<and> fst (HlsMasterPlaylistView_render codec_stub (track_of 3
      [\<lparr>sequence = 1, segment = payload (replicate 750000 0), duration = 6\<rparr>]))
   = Inr (join_lines
       [''#EXTM3U'',
        ''#EXT-X-STREAM-INF:BANDWIDTH=1200000,CODECS='' @ [CHR 0x22] @ ''avc1.640028''
          @ [CHR 0x22],
        ''playlist.m3u8''] @ [CHR 0x0A])"
proof -
  have zero: "HlsMasterPlaylistView_render codec_stub (track_of 3
      [\<lparr>sequence = 0, segment = payload (replicate 750000 0), duration = 6\<rparr>])
   = (Inl AttributeError, track_of 3
      [\<lparr>sequence = 0, segment = payload (replicate 750000 0), duration = 6\<rparr>])"
    by (simp add: HlsMasterPlaylistView_render_def track_of_def segments_def get_segment_def)
  have one: "fst (HlsMasterPlaylistView_render codec_stub (track_of 3
      [\<lparr>sequence = 1, segment = payload (replicate 750000 0), duration = 6\<rparr>]))
   = Inr (join_lines
       [''#EXTM3U'',
        ''#EXT-X-STREAM-INF:BANDWIDTH='' @ show_int 1200000 @ '',CODECS='' @ [CHR 0x22]
          @ ''avc1.640028'' @ [CHR 0x22],
        ''playlist.m3u8''] @ [CHR 0x0A])"
    by (rule master_render_bandwidth)
       (simp_all add: track_of_def segments_def payload_def codec_stub_def
          bandwidth_of_examples)
  show ?thesis
    using zero one by (simp add: show_int_bandwidths)
qed

end
